theory Spec2Isabelle
  imports Main "HOL-Library.Word"
begin

unbundle bit_operations_syntax

section \<open>Go primitives used by \<^verbatim>\<open>main.go\<close>\<close>

text \<open>
  A Go \<^verbatim>\<open>string\<close> is a sequence of bytes: \<^verbatim>\<open>len\<close>, indexing and slicing all count
  bytes. It is modelled by \<^typ>\<open>string\<close>, whose characters are 8-bit. A \<^verbatim>\<open>rune\<close> is
  an \<^verbatim>\<open>int32\<close>. The values of Go's \<^verbatim>\<open>int\<close> and \<^verbatim>\<open>int64\<close> are written as
  \<^typ>\<open>int\<close>. The one computation on them that can leave the machine range and
  change what the program does is the loop bound \<^verbatim>\<open>len(text)-mc.order\<close> of
  \<^verbatim>\<open>AddText\<close>, and its wrap-around is written out there. In \<^verbatim>\<open>Generate\<close>,
  \<^verbatim>\<open>length-len(starter)\<close> is taken of two non-negative values, and
  \<^verbatim>\<open>len(starter)-mc.order\<close> gives a slice bound that is out of range for every
  negative order, wrapped or not, so the slice panics either way.

  Indexing and slicing out of range, and \<^verbatim>\<open>rand.Intn\<close> on a non-positive argument,
  panic. The program never recovers, so a panic is a result of its own.
\<close>

type_synonym rune = "32 word"

datatype panic = SliceBounds | IndexRange | IntnArg

definition go_index :: "string \<Rightarrow> int \<Rightarrow> panic + char" where
  \<comment> \<open>\<^verbatim>\<open>s[i]\<close>\<close>
  "go_index s i =
     (if 0 \<le> i \<and> i < int (length s) then Inr (s ! nat i) else Inl IndexRange)"

definition go_slice :: "string \<Rightarrow> int \<Rightarrow> int \<Rightarrow> panic + string" where
  \<comment> \<open>\<^verbatim>\<open>s[lo:hi]\<close>\<close>
  "go_slice s lo hi =
     (if 0 \<le> lo \<and> lo \<le> hi \<and> hi \<le> int (length s)
      then Inr (take (nat hi - nat lo) (drop (nat lo) s))
      else Inl SliceBounds)"

definition go_slice_to :: "string \<Rightarrow> int \<Rightarrow> panic + string" where
  \<comment> \<open>\<^verbatim>\<open>s[:hi]\<close>\<close>
  "go_slice_to s hi =
     (if 0 \<le> hi \<and> hi \<le> int (length s) then Inr (take (nat hi) s) else Inl SliceBounds)"

definition go_slice_from :: "string \<Rightarrow> int \<Rightarrow> panic + string" where
  \<comment> \<open>\<^verbatim>\<open>s[lo:]\<close>\<close>
  "go_slice_from s lo =
     (if 0 \<le> lo \<and> lo \<le> int (length s) then Inr (drop (nat lo) s) else Inl SliceBounds)"

definition go_nth :: "'a list \<Rightarrow> nat \<Rightarrow> panic + 'a" where
  \<comment> \<open>\<^verbatim>\<open>xs[i]\<close> on a slice, for an index that is already non-negative\<close>
  "go_nth xs i = (if i < length xs then Inr (xs ! i) else Inl IndexRange)"

definition rune_of_byte :: "char \<Rightarrow> rune" where
  \<comment> \<open>the conversion \<^verbatim>\<open>rune(b)\<close> of a byte: its value, between 0 and 255\<close>
  "rune_of_byte c = of_char c"

definition byte_of :: "rune \<Rightarrow> char" where
  \<comment> \<open>the conversion \<^verbatim>\<open>byte(r)\<close>: the low eight bits\<close>
  "byte_of r = char_of (uint r)"

definition encodeRune :: "rune \<Rightarrow> string" where
  \<comment> \<open>the bytes that \<^verbatim>\<open>strings.Builder.WriteRune(r)\<close> appends and that the conversion
      \<^verbatim>\<open>string(r)\<close> yields: the UTF-8 encoding of \<open>r\<close> (\<^verbatim>\<open>utf8.AppendRune\<close>), which
      compares \<^verbatim>\<open>uint32(r)\<close>, so that a negative rune is out of range and is
      encoded as U+FFFD, like a surrogate\<close>
  "encodeRune r =
     (if r \<le> 0x7F then [byte_of r]
      else if r \<le> 0x7FF then
        [byte_of (0xC0 OR drop_bit 6 r), byte_of (0x80 OR (r AND 0x3F))]
      else if 0x10FFFF < r \<or> (0xD800 \<le> r \<and> r \<le> 0xDFFF) then
        [CHR 0xEF, CHR 0xBF, CHR 0xBD]
      else if r \<le> 0xFFFF then
        [byte_of (0xE0 OR drop_bit 12 r),
         byte_of (0x80 OR (drop_bit 6 r AND 0x3F)),
         byte_of (0x80 OR (r AND 0x3F))]
      else
        [byte_of (0xF0 OR drop_bit 18 r),
         byte_of (0x80 OR (drop_bit 12 r AND 0x3F)),
         byte_of (0x80 OR (drop_bit 6 r AND 0x3F)),
         byte_of (0x80 OR (r AND 0x3F))])"

section \<open>The chain\<close>

text \<open>
  \<^verbatim>\<open>type MarkovChain struct { transitions map[string][]rune; order int }\<close>.
  A Go map has no order, so it is a partial function. Reading a missing key gives
  the nil slice, of length 0.
\<close>

record MarkovChain =
  transitions :: "string \<rightharpoonup> rune list"
  order :: int

definition lookup :: "(string \<rightharpoonup> rune list) \<Rightarrow> string \<Rightarrow> rune list" where
  \<comment> \<open>\<^verbatim>\<open>mc.transitions[state]\<close> as an expression\<close>
  "lookup T s = (case T s of None \<Rightarrow> [] | Some rs \<Rightarrow> rs)"

definition NewMarkovChain :: "int \<Rightarrow> MarkovChain" where
  "NewMarkovChain k = \<lparr>transitions = Map.empty, order = k\<rparr>"

subsection \<open>AddText\<close>

text \<open>
  The loop \<^verbatim>\<open>for i := 0; i < len(text)-mc.order; i++\<close> with its body: the window
  \<^verbatim>\<open>text[i : i+mc.order]\<close>, the byte after it converted to a rune, and the append to
  the window's entry.

  Go's \<^verbatim>\<open>int\<close> has 64 bits here and its arithmetic wraps around. \<open>go_int x\<close> is the
  value that an \<^verbatim>\<open>int\<close> holds for the mathematical result \<open>x\<close>. The loop bound
  \<^verbatim>\<open>len(text)-mc.order\<close> is the one place where that matters. A length lies
  between 0 and the greatest \<^verbatim>\<open>int\<close>, so for an order \<open>\<ge> 0\<close> the difference is
  exact; for a negative order the difference can exceed the greatest \<^verbatim>\<open>int\<close> and
  wraps to a negative bound, and then the loop body never runs. Inside the loop
  \<^verbatim>\<open>i+mc.order\<close> and \<^verbatim>\<open>i++\<close> are exact: with an order \<open>\<ge> 0\<close> they stay
  below \<^verbatim>\<open>len(text)\<close>, and with a negative order the first pass, where
  \<^verbatim>\<open>i+mc.order\<close> is the order itself, panics at the slice.
\<close>

definition go_int :: "int \<Rightarrow> int" where
  "go_int x = (x + 2 ^ 63) mod 2 ^ 64 - 2 ^ 63"

definition len_minus :: "nat \<Rightarrow> int \<Rightarrow> int" where
  \<comment> \<open>\<^verbatim>\<open>len(text)-mc.order\<close> as Go computes it, for a text of \<open>n\<close> bytes\<close>
  "len_minus n k = (if 0 \<le> k then int n - k else go_int (int n - k))"

function AddText_loop ::
  "int \<Rightarrow> string \<Rightarrow> int \<Rightarrow> (string \<rightharpoonup> rune list) \<Rightarrow> panic + (string \<rightharpoonup> rune list)"
where
  "AddText_loop k text i T =
     (if i < len_minus (length text) k then
        (case go_slice text i (i + k) of
           Inl e \<Rightarrow> Inl e
         | Inr state \<Rightarrow>
             (case go_index text (i + k) of
                Inl e \<Rightarrow> Inl e
              | Inr b \<Rightarrow>
                  AddText_loop k text (i + 1)
                    (T(state \<mapsto> lookup T state @ [rune_of_byte b]))))
      else Inr T)"
  by pat_completeness auto
termination
  by (relation "measure (\<lambda>(k, text, i, T). nat (len_minus (length text) k - i))") auto

declare AddText_loop.simps [simp del]

definition AddText :: "MarkovChain \<Rightarrow> string \<Rightarrow> panic + MarkovChain" where
  "AddText mc text =
     (if int (length text) \<le> order mc then Inr mc
      else (case AddText_loop (order mc) text 0 (transitions mc) of
              Inl e \<Rightarrow> Inl e
            | Inr T \<Rightarrow> Inr (mc\<lparr>transitions := T\<rparr>)))"

section \<open>What the Go runtime supplies to Generate\<close>

text \<open>
  \<^verbatim>\<open>Generate\<close> reads three things that are not its arguments:
  \<^item> the global source of \<^verbatim>\<open>math/rand\<close>: \<^verbatim>\<open>rand.Seed\<close> sets its state, a function of
    the seed alone, and \<^verbatim>\<open>rand.Intn(n)\<close> draws from the state and advances it;
  \<^item> the clock, \<^verbatim>\<open>time.Now().UnixNano()\<close>;
  \<^item> the order in which \<^verbatim>\<open>for state := range mc.transitions\<close> yields the keys.
    The Go specification leaves the iteration order of a map unspecified and
    the runtime starts every \<^verbatim>\<open>range\<close> loop at a random position, drawn from a
    source of its own that \<^verbatim>\<open>rand.Seed\<close> does not touch. \<open>range_keys rt j\<close> is
    the list of keys as the \<open>j\<close>-th such loop of the call yields them.

  The generator of \<^verbatim>\<open>math/rand\<close> is library code; any state type \<open>'g\<close> with the
  two operations stands for it. What is known of the runtime is \<open>runtime_ok\<close>:
  a draw \<^verbatim>\<open>Intn(n)\<close> with \<open>0 < n\<close> lies below \<open>n\<close>, and a \<^verbatim>\<open>range\<close> loop yields
  every key of the map once.
\<close>

record 'g runtime =
  rand_Seed :: "int \<Rightarrow> 'g"
  rand_Intn :: "'g \<Rightarrow> nat \<Rightarrow> nat \<times> 'g"
  time_Now :: int
  range_keys :: "nat \<Rightarrow> string list"

definition runtime_ok :: "'g runtime \<Rightarrow> (string \<rightharpoonup> rune list) \<Rightarrow> bool" where
  "runtime_ok rt T \<longleftrightarrow>
     (\<forall>g n. 0 < n \<longrightarrow> fst (rand_Intn rt g n) < n) \<and>
     (\<forall>j. distinct (range_keys rt j) \<and> set (range_keys rt j) = dom T)"

definition Intn :: "'g runtime \<Rightarrow> 'g \<Rightarrow> nat \<Rightarrow> panic + (nat \<times> 'g)" where
  \<comment> \<open>\<^verbatim>\<open>rand.Intn(n)\<close>, which panics when \<open>n \<le> 0\<close>\<close>
  "Intn rt g n = (if n = 0 then Inl IntnArg else Inr (rand_Intn rt g n))"

section \<open>Generate\<close>

text \<open>
  The state that one call threads through its draws: the state of the random
  source and the number of \<^verbatim>\<open>range\<close> loops run so far.
\<close>

type_synonym 'g world = "'g \<times> nat"

definition random_state :: "'g runtime \<Rightarrow> 'g world \<Rightarrow> panic + (string \<times> 'g world)" where
  \<comment> \<open>collect the keys with a \<^verbatim>\<open>range\<close> loop, then \<^verbatim>\<open>states[rand.Intn(len(states))]\<close>\<close>
  "random_state rt w =
     (case w of (g, j) \<Rightarrow>
        (let states = range_keys rt j in
         case Intn rt g (length states) of
           Inl e \<Rightarrow> Inl e
         | Inr (i, g') \<Rightarrow>
             (case go_nth states i of
                Inl e \<Rightarrow> Inl e
              | Inr s \<Rightarrow> Inr (s, (g', Suc j)))))"

definition advance :: "int \<Rightarrow> string \<Rightarrow> rune \<Rightarrow> string" where
  \<comment> \<open>the update of \<^verbatim>\<open>currentState\<close> at the end of the loop body\<close>
  "advance k cur c =
     (if k > 1 then
        (if length cur > 0 then drop 1 cur @ encodeRune c else encodeRune c)
      else encodeRune c)"

datatype 'g step = Break | Emit rune string "'g world"

definition pick_next ::
  "'g runtime \<Rightarrow> MarkovChain \<Rightarrow> string \<Rightarrow> rune list \<Rightarrow> 'g world \<Rightarrow> panic + 'g step"
where
  \<comment> \<open>\<^verbatim>\<open>nextChar := nextRunes[rand.Intn(len(nextRunes))]\<close> and the cursor update;
      \<open>Emit c cur' w'\<close> says that \<open>c\<close> goes to \<^verbatim>\<open>result.WriteRune\<close>\<close>
  "pick_next rt mc cur nextRunes w =
     (case w of (g, j) \<Rightarrow>
        (case Intn rt g (length nextRunes) of
           Inl e \<Rightarrow> Inl e
         | Inr (i, g') \<Rightarrow>
             (case go_nth nextRunes i of
                Inl e \<Rightarrow> Inl e
              | Inr nextChar \<Rightarrow>
                  Inr (Emit nextChar (advance (order mc) cur nextChar) (g', j)))))"

definition gen_step ::
  "'g runtime \<Rightarrow> MarkovChain \<Rightarrow> string \<Rightarrow> 'g world \<Rightarrow> panic + 'g step"
where
  \<comment> \<open>one pass through the body of the generation loop\<close>
  "gen_step rt mc cur w =
     (if length (lookup (transitions mc) cur) = 0 then
        (case random_state rt w of
           Inl e \<Rightarrow> Inl e
         | Inr (cur', w') \<Rightarrow>
             (if length (lookup (transitions mc) cur') = 0 then Inr Break
              else pick_next rt mc cur' (lookup (transitions mc) cur') w'))
      else pick_next rt mc cur (lookup (transitions mc) cur) w)"

fun gen_loop ::
  "'g runtime \<Rightarrow> MarkovChain \<Rightarrow> nat \<Rightarrow> string \<Rightarrow> 'g world \<Rightarrow> string \<Rightarrow> panic + string"
where
  \<comment> \<open>\<^verbatim>\<open>for i := 0; i < needed; i++\<close>, with the builder \<open>result\<close>\<close>
  "gen_loop rt mc 0 cur w result = Inr result"
| "gen_loop rt mc (Suc n) cur w result =
     (case gen_step rt mc cur w of
        Inl e \<Rightarrow> Inl e
      | Inr Break \<Rightarrow> Inr result
      | Inr (Emit c cur' w') \<Rightarrow> gen_loop rt mc n cur' w' (result @ encodeRune c))"

definition initial_state ::
  "'g runtime \<Rightarrow> MarkovChain \<Rightarrow> string \<Rightarrow> 'g world \<Rightarrow> panic + (string \<times> 'g world)"
where
  \<comment> \<open>the initial \<^verbatim>\<open>currentState\<close>\<close>
  "initial_state rt mc starter w =
     (if int (length starter) \<ge> order mc then
        (case go_slice_from starter (int (length starter) - order mc) of
           Inl e \<Rightarrow> Inl e
         | Inr cur \<Rightarrow> Inr (cur, w))
      else random_state rt w)"

definition Generate ::
  "'g runtime \<Rightarrow> MarkovChain \<Rightarrow> int \<Rightarrow> int \<Rightarrow> string \<Rightarrow> panic + string"
where
  "Generate rt mc length_arg seed starter =
     (if length_arg \<le> 0 then Inr ''''
      else
        (let g = (if seed < 0 then rand_Seed rt (time_Now rt) else rand_Seed rt seed) in
         if dom (transitions mc) = {} then
           (if int (length starter) > length_arg then go_slice_to starter length_arg
            else Inr starter)
         else if int (length starter) \<ge> length_arg then go_slice_to starter length_arg
         else
           (let needed = length_arg - int (length starter) in
            case initial_state rt mc starter (g, 0) of
              Inl e \<Rightarrow> Inl e
            | Inr (cur, w) \<Rightarrow> gen_loop rt mc (nat needed) cur w starter)))"

text \<open>
  The runes that a walk hands to \<^verbatim>\<open>result.WriteRune\<close>, each with the value that
  \<^verbatim>\<open>currentState\<close> has when \<^verbatim>\<open>nextChar\<close> is drawn: the cursor with which the pass
  through the loop body began or, when that cursor has no successors, the
  re-seeded state (\<open>drawn_from\<close>). \<open>gen_trace\<close> follows \<open>gen_loop\<close> and
  \<open>emissions\<close> follows \<open>Generate\<close>; they return the list of these pairs where
  the originals return the string.
\<close>

definition drawn_from :: "'g runtime \<Rightarrow> MarkovChain \<Rightarrow> string \<Rightarrow> 'g world \<Rightarrow> string" where
  "drawn_from rt mc cur w =
     (if length (lookup (transitions mc) cur) = 0 then
        (case random_state rt w of Inl e \<Rightarrow> cur | Inr (cur', w') \<Rightarrow> cur')
      else cur)"

fun gen_trace ::
  "'g runtime \<Rightarrow> MarkovChain \<Rightarrow> nat \<Rightarrow> string \<Rightarrow> 'g world \<Rightarrow> (string \<times> rune) list"
where
  "gen_trace rt mc 0 cur w = []"
| "gen_trace rt mc (Suc n) cur w =
     (case gen_step rt mc cur w of
        Inl e \<Rightarrow> []
      | Inr Break \<Rightarrow> []
      | Inr (Emit c cur' w') \<Rightarrow> (drawn_from rt mc cur w, c) # gen_trace rt mc n cur' w')"

definition emissions ::
  "'g runtime \<Rightarrow> MarkovChain \<Rightarrow> int \<Rightarrow> int \<Rightarrow> string \<Rightarrow> (string \<times> rune) list"
where
  "emissions rt mc length_arg seed starter =
     (if length_arg \<le> 0 then []
      else
        (let g = (if seed < 0 then rand_Seed rt (time_Now rt) else rand_Seed rt seed) in
         if dom (transitions mc) = {} then []
         else if int (length starter) \<ge> length_arg then []
         else
           (let needed = length_arg - int (length starter) in
            case initial_state rt mc starter (g, 0) of
              Inl e \<Rightarrow> []
            | Inr (cur, w) \<Rightarrow> gen_trace rt mc (nat needed) cur w)))"

section \<open>Notions the specification uses\<close>

text \<open>
  The specification's description of \<^verbatim>\<open>build\<close>: for every starting index \<open>i\<close> from 0
  to \<open>len(corpus) - order - 1\<close>, take the state \<open>corpus[i : i+order]\<close> and the next
  character \<open>corpus[i+order]\<close>, and append the character to the table's entry for
  the state, creating the entry if absent.
\<close>

definition spec_record :: "nat \<Rightarrow> string \<Rightarrow> (string \<rightharpoonup> rune list) \<Rightarrow> nat \<Rightarrow> (string \<rightharpoonup> rune list)" where
  "spec_record K corpus T i =
     (let state = take K (drop i corpus); next = rune_of_byte (corpus ! (i + K))
      in T(state \<mapsto> lookup T state @ [next]))"

definition spec_build :: "nat \<Rightarrow> string \<Rightarrow> (string \<rightharpoonup> rune list)" where
  "spec_build K corpus = foldl (spec_record K corpus) Map.empty [0..<length corpus - K]"

text \<open>
  \<open>follows corpus K s c\<close>: the state \<open>s\<close>, of \<open>K\<close> characters, occurs in the corpus
  at some position and the character right after that occurrence is \<open>c\<close>.
\<close>

definition follows :: "string \<Rightarrow> nat \<Rightarrow> string \<Rightarrow> rune \<Rightarrow> bool" where
  "follows corpus K s c \<longleftrightarrow>
     (\<exists>i \<in> {0..<length corpus - K}.
        take K (drop i corpus) = s \<and> rune_of_byte (corpus ! (i + K)) = c)"

text \<open>A sequence of \<^verbatim>\<open>AddText\<close> calls on one chain; the first panic ends the program.\<close>

fun AddTexts :: "MarkovChain \<Rightarrow> string list \<Rightarrow> panic + MarkovChain" where
  "AddTexts mc [] = Inr mc"
| "AddTexts mc (text # texts) =
     (case AddText mc text of Inl e \<Rightarrow> Inl e | Inr mc' \<Rightarrow> AddTexts mc' texts)"

section \<open>A runtime for running the model on examples\<close>

text \<open>
  A small generator (the state is a counter, a draw is the counter modulo \<open>n\<close>) and
  a fixed iteration order \<open>ks\<close>. It satisfies \<open>runtime_ok\<close> for a table whose keys
  are \<open>ks\<close>.
\<close>

definition example_runtime :: "string list \<Rightarrow> nat runtime" where
  "example_runtime ks =
     \<lparr>rand_Seed = nat, rand_Intn = (\<lambda>g n. (g mod n, g + 1)), time_Now = 0,
      range_keys = (\<lambda>j. ks)\<rparr>"

section \<open>AddText: what the loop computes\<close>

lemma len_minus_nonneg: "len_minus n (int K) = int n - int K"
  by (simp add: len_minus_def)

lemma AddText_loop_nat:
  "j \<le> length text - K \<Longrightarrow> K < length text \<Longrightarrow>
   AddText_loop (int K) text (int j) T = Inr (foldl (spec_record K text) T [j..<length text - K])"
proof (induction "length text - K - j" arbitrary: j T)
  case 0
  then have "j = length text - K" and "\<not> int j < int (length text) - int K" by linarith+
  then show ?case by (subst AddText_loop.simps) (simp add: len_minus_nonneg)
next
  case (Suc d)
  then have lt: "j < length text - K" by simp
  then have "int j < int (length text) - int K" by linarith
  then have c: "int j < len_minus (length text) (int K)" by (simp only: len_minus_nonneg)
  from lt have sl: "go_slice text (int j) (int j + int K) = Inr (take K (drop j text))"
    by (simp add: go_slice_def nat_add_distrib)
  from lt have ix: "go_index text (int j + int K) = Inr (text ! (j + K))"
    by (simp add: go_index_def nat_add_distrib)
  from Suc.hyps(2) have d: "d = length text - K - Suc j" by simp
  from lt have "Suc j \<le> length text - K" by simp
  note IH = Suc.hyps(1) [OF d this Suc.prems(2)]
  have "AddText_loop (int K) text (int j) T =
      AddText_loop (int K) text (int (Suc j)) (spec_record K text T j)"
    by (subst AddText_loop.simps, simp only: c if_True sl ix sum.case)
       (simp add: spec_record_def Let_def add.commute)
  with IH lt show ?case by (simp add: upt_conv_Cons)
qed

text \<open>
  A negative order: the first window \<^verbatim>\<open>text[0 : order]\<close> panics, unless the loop
  bound has wrapped to a value that is not positive, and then nothing is done.
\<close>

lemma AddText_loop_negative:
  "k < 0 \<Longrightarrow> AddText_loop k text 0 T =
     (if 0 < go_int (int (length text) - k) then Inl SliceBounds else Inr T)"
  by (subst AddText_loop.simps) (simp add: go_slice_def len_minus_def)

lemma AddText_nonneg:
  assumes "0 \<le> order mc" and "order mc < int (length text)"
  shows "AddText mc text =
     Inr (mc\<lparr>transitions :=
        foldl (spec_record (nat (order mc)) text) (transitions mc) [0..<length text - nat (order mc)]\<rparr>)"
proof -
  let ?K = "nat (order mc)"
  from assms have "?K < length text" by linarith
  then have "AddText_loop (int ?K) text (int 0) (transitions mc) =
      Inr (foldl (spec_record ?K text) (transitions mc) [0..<length text - ?K])"
    by (intro AddText_loop_nat) simp_all
  with assms show ?thesis by (simp add: AddText_def)
qed

lemma AddText_negative:
  "order mc < 0 \<Longrightarrow> AddText mc text =
     (if 0 < go_int (int (length text) - order mc) then Inl SliceBounds else Inr mc)"
  by (simp add: AddText_def AddText_loop_negative)

lemma AddText_negative_one: "AddText (NewMarkovChain (- 1)) ''ab'' = Inl SliceBounds"
  by (simp add: AddText_negative NewMarkovChain_def go_int_def)

lemma AddText_least_int:
  "AddText (NewMarkovChain (- (2 ^ 63))) ''ab'' = Inr (NewMarkovChain (- (2 ^ 63)))"
  by (simp add: AddText_negative NewMarkovChain_def go_int_def)

lemma AddText_short:
  "int (length text) \<le> order mc \<Longrightarrow> AddText mc text = Inr mc"
  by (simp add: AddText_def)

lemma lookup_upd: "lookup (T(s \<mapsto> rs)) s' = (if s' = s then rs else lookup T s')"
  by (simp add: lookup_def)

lemma lookup_foldl_record:
  "lookup (foldl (spec_record K text) T js) s =
   lookup T s @ map (\<lambda>j. rune_of_byte (text ! (j + K))) (filter (\<lambda>j. take K (drop j text) = s) js)"
  by (induction js arbitrary: T) (auto simp: spec_record_def lookup_upd Let_def)

lemma dom_foldl_record:
  "dom (foldl (spec_record K text) T js) = dom T \<union> (\<lambda>j. take K (drop j text)) ` set js"
  by (induction js arbitrary: T) (auto simp: spec_record_def Let_def)

lemma map_eq_by_lookup:
  assumes "dom A = dom B" and "\<And>s. lookup A s = lookup B s"
  shows "A = B"
proof
  fix s
  show "A s = B s"
  proof (cases "A s")
    case None
    with assms(1) have "B s = None" by (metis domIff)
    with None show ?thesis by simp
  next
    case (Some rs)
    with assms(1) obtain rs' where b: "B s = Some rs'" by (metis domIff option.exhaust)
    with Some assms(2) [of s] show ?thesis by (simp add: lookup_def)
  qed
qed

lemma lookup_empty: "lookup Map.empty s = []"
  by (simp add: lookup_def)

lemma AddText_fresh:
  assumes "0 \<le> k" and "k < int (length corpus)"
  shows "AddText (NewMarkovChain k) corpus =
     Inr \<lparr>transitions = spec_build (nat k) corpus, order = k\<rparr>"
  using assms AddText_nonneg [of "NewMarkovChain k" corpus]
  by (simp add: NewMarkovChain_def spec_build_def)

lemma lookup_spec_build:
  "lookup (spec_build K corpus) s =
     map (\<lambda>i. rune_of_byte (corpus ! (i + K)))
       (filter (\<lambda>i. take K (drop i corpus) = s) [0..<length corpus - K])"
  by (simp add: spec_build_def lookup_foldl_record lookup_empty)

lemma dom_spec_build:
  "dom (spec_build K corpus) = (\<lambda>i. take K (drop i corpus)) ` {0..<length corpus - K}"
  by (simp add: spec_build_def dom_foldl_record)

lemma ababab_table:
  "AddText (NewMarkovChain 1) ''ababab'' =
     Inr \<lparr>transitions = [''a'' \<mapsto> map rune_of_byte ''bbb'', ''b'' \<mapsto> map rune_of_byte ''aa''],
          order = 1\<rparr>"
  by (simp add: AddText_nonneg NewMarkovChain_def spec_record_def lookup_def fun_upd_twist
      upt_rec_numeral)

lemma order_zero_table:
  assumes "text \<noteq> []"
  shows "AddText (NewMarkovChain 0) text =
     Inr \<lparr>transitions = [[] \<mapsto> map rune_of_byte text], order = 0\<rparr>"
proof -
  have "map (\<lambda>i. rune_of_byte (text ! i)) [0..<length text] = map rune_of_byte (map ((!) text) [0..<length text])"
    by simp
  then have l: "map (\<lambda>i. rune_of_byte (text ! i)) [0..<length text] = map rune_of_byte text"
    by (simp only: map_nth)
  have "spec_build 0 text = [[] \<mapsto> map rune_of_byte text]"
  proof (rule map_eq_by_lookup)
    from assms have "0 \<in> {0..<length text}" by simp
    then have "(\<lambda>i. []::string) ` {0..<length text} = {[]}" by (rule image_constant)
    then show "dom (spec_build 0 text) = dom [[] \<mapsto> map rune_of_byte text]"
      by (simp add: dom_spec_build)
    show "lookup (spec_build 0 text) s = lookup [[] \<mapsto> map rune_of_byte text] s" for s
      using l by (simp add: lookup_spec_build lookup_upd) (simp add: lookup_def)
  qed
  with assms AddText_fresh [of 0 "text"] show ?thesis by simp
qed

section \<open>AddText keeps every list non-empty\<close>

lemma spec_record_ran:
  assumes "[] \<notin> ran T"
  shows "[] \<notin> ran (spec_record K corpus T i)"
proof
  assume "[] \<in> ran (spec_record K corpus T i)"
  then obtain s where "spec_record K corpus T i s = Some []" by (auto simp: ran_def)
  then have "T s = Some []"
    by (simp add: spec_record_def Let_def split: if_splits)
  with assms show False by (auto simp: ran_def)
qed

lemma foldl_record_ran:
  "[] \<notin> ran T \<Longrightarrow> [] \<notin> ran (foldl (spec_record K corpus) T js)"
  by (induction js arbitrary: T) (simp_all add: spec_record_ran)

lemma AddText_order:
  assumes "AddText mc corpus = Inr mc'"
  shows "order mc' = order mc \<and> (0 \<le> order mc \<or> mc' = mc)"
proof (cases "int (length corpus) \<le> order mc")
  case True
  with assms show ?thesis by (simp add: AddText_short)
next
  case False
  show ?thesis
  proof (cases "order mc < 0")
    case True
    with assms show ?thesis by (simp add: AddText_negative split: if_splits)
  next
    case False
    with \<open>\<not> int (length corpus) \<le> order mc\<close> assms AddText_nonneg [of mc corpus]
    show ?thesis by auto
  qed
qed

lemma AddText_ran:
  assumes "AddText mc corpus = Inr mc'" and "[] \<notin> ran (transitions mc)"
  shows "[] \<notin> ran (transitions mc')"
proof (cases "int (length corpus) \<le> order mc")
  case True
  with assms show ?thesis by (simp add: AddText_short)
next
  case False
  show ?thesis
  proof (cases "order mc < 0")
    case True
    with assms show ?thesis by (simp add: AddText_negative split: if_splits)
  next
    case False
    with \<open>\<not> int (length corpus) \<le> order mc\<close> assms AddText_nonneg [of mc corpus]
    show ?thesis by (auto simp: foldl_record_ran)
  qed
qed

lemma AddTexts_ran:
  "AddTexts mc texts = Inr mc' \<Longrightarrow> [] \<notin> ran (transitions mc) \<Longrightarrow> [] \<notin> ran (transitions mc')"
proof (induction texts arbitrary: mc)
  case Nil
  then show ?case by simp
next
  case (Cons t texts)
  from Cons.prems(1) obtain mc1 where a: "AddText mc t = Inr mc1"
    and b: "AddTexts mc1 texts = Inr mc'"
    by (auto split: sum.splits)
  from AddText_ran [OF a Cons.prems(2)] have "[] \<notin> ran (transitions mc1)" .
  with Cons.IH [OF b] show ?case .
qed

lemma AddTexts_chain_ok:
  "AddTexts mc texts = Inr mc' \<Longrightarrow> 0 \<le> order mc \<or> dom (transitions mc) = {} \<Longrightarrow>
   0 \<le> order mc' \<or> dom (transitions mc') = {}"
proof (induction texts arbitrary: mc)
  case Nil
  then show ?case by simp
next
  case (Cons t texts)
  from Cons.prems(1) obtain mc1 where a: "AddText mc t = Inr mc1"
    and b: "AddTexts mc1 texts = Inr mc'"
    by (auto split: sum.splits)
  from AddText_order [OF a] Cons.prems(2) have "0 \<le> order mc1 \<or> dom (transitions mc1) = {}"
    by auto
  with Cons.IH [OF b] show ?case .
qed

lemma lookup_nonempty:
  assumes "[] \<notin> ran T" and "s \<in> dom T"
  shows "lookup T s \<noteq> []"
proof -
  from assms(2) obtain rs where "T s = Some rs" by auto
  with assms(1) show ?thesis by (auto simp: lookup_def ran_def)
qed

section \<open>Generate: the walk never panics\<close>

lemma random_state_ok:
  assumes ok: "runtime_ok rt T" and ne: "dom T \<noteq> {}"
  shows "\<exists>s w'. random_state rt w = Inr (s, w') \<and> s \<in> dom T"
proof -
  obtain g j where w: "w = (g, j)" by (cases w)
  let ?ks = "range_keys rt j"
  from ok have keys: "set ?ks = dom T"
    and draw: "\<And>n. 0 < n \<Longrightarrow> fst (rand_Intn rt g n) < n"
    by (simp_all add: runtime_ok_def)
  from keys ne have "set ?ks \<noteq> {}" by simp
  then have pos: "0 < length ?ks" by simp
  obtain i g' where d: "rand_Intn rt g (length ?ks) = (i, g')"
    by (cases "rand_Intn rt g (length ?ks)")
  with draw [OF pos] have i: "i < length ?ks" by simp
  then have "?ks ! i \<in> dom T" using keys nth_mem by blast
  moreover have "random_state rt w = Inr (?ks ! i, (g', Suc j))"
    using w pos d i by (simp add: random_state_def Intn_def go_nth_def)
  ultimately show ?thesis by blast
qed

lemma pick_next_ok:
  assumes draw: "\<forall>g n. 0 < n \<longrightarrow> fst (rand_Intn rt g n) < n" and ne: "rs \<noteq> []"
  shows "\<exists>c w'. pick_next rt mc cur rs w = Inr (Emit c (advance (order mc) cur c) w') \<and> c \<in> set rs"
proof -
  obtain g j where w: "w = (g, j)" by (cases w)
  obtain i g' where d: "rand_Intn rt g (length rs) = (i, g')"
    by (cases "rand_Intn rt g (length rs)")
  from ne have pos: "0 < length rs" by simp
  with draw d have i: "i < length rs" by (metis fst_conv)
  then have "rs ! i \<in> set rs" by simp
  moreover have "pick_next rt mc cur rs w = Inr (Emit (rs ! i) (advance (order mc) cur (rs ! i)) (g', j))"
    using w pos d i by (simp add: pick_next_def Intn_def go_nth_def)
  ultimately show ?thesis by blast
qed

lemma gen_step_cases:
  assumes ok: "runtime_ok rt (transitions mc)" and ne: "dom (transitions mc) \<noteq> {}"
  shows "gen_step rt mc cur w = Inr Break \<or> (\<exists>c cur' w'. gen_step rt mc cur w = Inr (Emit c cur' w'))"
proof -
  from ok have draw: "\<forall>g n. 0 < n \<longrightarrow> fst (rand_Intn rt g n) < n"
    by (simp add: runtime_ok_def)
  show ?thesis
  proof (cases "lookup (transitions mc) cur = []")
    case False
    with pick_next_ok [OF draw False, of mc cur w] show ?thesis
      by (auto simp: gen_step_def)
  next
    case True
    from random_state_ok [OF ok ne, of w] obtain s w'
      where r: "random_state rt w = Inr (s, w')" by blast
    show ?thesis
    proof (cases "lookup (transitions mc) s = []")
      case True
      with \<open>lookup (transitions mc) cur = []\<close> r show ?thesis by (simp add: gen_step_def)
    next
      case False
      with pick_next_ok [OF draw False, of mc s w'] True r show ?thesis
        by (auto simp: gen_step_def)
    qed
  qed
qed

lemma gen_loop_extends:
  assumes ok: "runtime_ok rt (transitions mc)" and ne: "dom (transitions mc) \<noteq> {}"
  shows "\<exists>suffix. gen_loop rt mc n cur w acc = Inr (acc @ suffix)"
proof (induction n arbitrary: cur w acc)
  case 0
  then show ?case by simp
next
  case (Suc n)
  from gen_step_cases [OF ok ne, of cur w] show ?case
  proof
    assume "gen_step rt mc cur w = Inr Break"
    then show ?thesis by simp
  next
    assume "\<exists>c cur' w'. gen_step rt mc cur w = Inr (Emit c cur' w')"
    then obtain c cur' w' where s: "gen_step rt mc cur w = Inr (Emit c cur' w')" by blast
    from Suc.IH [of cur' w' "acc @ encodeRune c"] obtain suffix
      where "gen_loop rt mc n cur' w' (acc @ encodeRune c) = Inr ((acc @ encodeRune c) @ suffix)"
      by blast
    with s show ?thesis by simp
  qed
qed

lemma initial_state_ok:
  assumes ok: "runtime_ok rt (transitions mc)" and ne: "dom (transitions mc) \<noteq> {}"
    and k: "0 \<le> order mc"
  shows "\<exists>cur w'. initial_state rt mc starter w = Inr (cur, w')"
proof (cases "order mc \<le> int (length starter)")
  case True
  with k show ?thesis by (simp add: initial_state_def go_slice_from_def)
next
  case False
  with random_state_ok [OF ok ne, of w] show ?thesis
    by (auto simp: initial_state_def)
qed

lemma example_runtime_ok:
  "distinct ks \<Longrightarrow> set ks = dom T \<Longrightarrow> runtime_ok (example_runtime ks) T"
  by (simp add: runtime_ok_def example_runtime_def)

lemma gen_step_no_break:
  assumes ran: "[] \<notin> ran (transitions mc)" and ok: "runtime_ok rt (transitions mc)"
  shows "gen_step rt mc cur w \<noteq> Inr Break"
proof -
  from ok have draw: "\<forall>g n. 0 < n \<longrightarrow> fst (rand_Intn rt g n) < n"
    by (simp add: runtime_ok_def)
  show ?thesis
  proof (cases "lookup (transitions mc) cur = []")
    case False
    with pick_next_ok [OF draw False, of mc cur w] show ?thesis
      by (auto simp: gen_step_def)
  next
    case True
    show ?thesis
    proof (cases "dom (transitions mc) = {}")
      case empty: True
      obtain g j where w: "w = (g, j)" by (cases w)
      from ok empty have "range_keys rt j = []" by (simp add: runtime_ok_def)
      with w have "random_state rt w = Inl IntnArg"
        by (simp add: random_state_def Intn_def)
      with True show ?thesis by (simp add: gen_step_def)
    next
      case False
      from random_state_ok [OF ok False, of w] obtain s w'
        where r: "random_state rt w = Inr (s, w')" and s: "s \<in> dom (transitions mc)" by blast
      from lookup_nonempty [OF ran s] have ne: "lookup (transitions mc) s \<noteq> []" .
      with pick_next_ok [OF draw ne, of mc s w'] True r show ?thesis
        by (auto simp: gen_step_def)
    qed
  qed
qed

section \<open>The runes a walk emits\<close>

lemma pick_next_mem:
  "pick_next rt mc cur rs w = Inr (Emit c cur' w') \<Longrightarrow> c \<in> set rs"
  by (cases w) (auto simp: pick_next_def Intn_def go_nth_def split: if_splits sum.splits prod.splits)

lemma gen_step_mem:
  assumes "gen_step rt mc cur w = Inr (Emit c cur' w')"
    and "lookup (transitions mc) cur \<noteq> []"
  shows "c \<in> set (lookup (transitions mc) cur)"
  using assms by (simp add: gen_step_def pick_next_mem)

lemma gen_step_drawn:
  assumes "gen_step rt mc cur w = Inr (Emit c cur' w')"
  shows "c \<in> set (lookup (transitions mc) (drawn_from rt mc cur w))"
proof (cases "lookup (transitions mc) cur = []")
  case False
  with assms show ?thesis by (simp add: drawn_from_def gen_step_mem)
next
  case True
  with assms obtain s w1 where r: "random_state rt w = Inr (s, w1)"
    and p: "pick_next rt mc s (lookup (transitions mc) s) w1 = Inr (Emit c cur' w')"
    by (auto simp: gen_step_def split: sum.splits if_splits)
  from p have "c \<in> set (lookup (transitions mc) s)" by (rule pick_next_mem)
  with True r show ?thesis by (simp add: drawn_from_def)
qed

lemma gen_trace_mem:
  "(s, c) \<in> set (gen_trace rt mc n cur w) \<Longrightarrow> c \<in> set (lookup (transitions mc) s)"
proof (induction n arbitrary: cur w)
  case 0
  then show ?case by simp
next
  case (Suc n)
  show ?case
  proof (cases "gen_step rt mc cur w")
    case (Inl e)
    with Suc.prems show ?thesis by simp
  next
    case (Inr r)
    show ?thesis
    proof (cases r)
      case Break
      with Inr Suc.prems show ?thesis by simp
    next
      case (Emit c1 cur' w')
      with Inr Suc.prems
      have "(s, c) = (drawn_from rt mc cur w, c1) \<or> (s, c) \<in> set (gen_trace rt mc n cur' w')"
        by simp
      then show ?thesis
      proof
        assume "(s, c) = (drawn_from rt mc cur w, c1)"
        with Inr Emit show ?thesis by (auto dest: gen_step_drawn)
      next
        assume "(s, c) \<in> set (gen_trace rt mc n cur' w')"
        then show ?thesis by (rule Suc.IH)
      qed
    qed
  qed
qed

lemma gen_loop_trace:
  "gen_loop rt mc n cur w acc = Inr out \<Longrightarrow>
   out = acc @ concat (map (\<lambda>(s, c). encodeRune c) (gen_trace rt mc n cur w))"
proof (induction n arbitrary: cur w acc)
  case 0
  then show ?case by simp
next
  case (Suc n)
  show ?case
  proof (cases "gen_step rt mc cur w")
    case (Inl e)
    with Suc.prems show ?thesis by simp
  next
    case (Inr r)
    show ?thesis
    proof (cases r)
      case Break
      with Inr Suc.prems show ?thesis by simp
    next
      case (Emit c cur' w')
      with Inr Suc.prems have "gen_loop rt mc n cur' w' (acc @ encodeRune c) = Inr out" by simp
      from Suc.IH [OF this] Inr Emit show ?thesis by simp
    qed
  qed
qed

lemma Generate_emissions:
  assumes "Generate rt mc n seed starter = Inr out"
  shows "out = take (nat n) starter @ concat (map (\<lambda>(s, c). encodeRune c) (emissions rt mc n seed starter))"
proof (cases "n \<le> 0 \<or> dom (transitions mc) = {} \<or> n \<le> int (length starter)")
  case True
  with assms show ?thesis
    by (auto simp: Generate_def emissions_def go_slice_to_def Let_def split: if_splits)
next
  case False
  let ?g = "if seed < 0 then rand_Seed rt (time_Now rt) else rand_Seed rt seed"
  from False assms obtain cur w where i: "initial_state rt mc starter (?g, 0) = Inr (cur, w)"
    and l: "gen_loop rt mc (nat (n - int (length starter))) cur w starter = Inr out"
    by (auto simp: Generate_def Let_def split: sum.splits)
  from False i have "emissions rt mc n seed starter = gen_trace rt mc (nat (n - int (length starter))) cur w"
    by (simp add: emissions_def Let_def)
  moreover from False have "length starter \<le> nat n" by linarith
  ultimately show ?thesis using gen_loop_trace [OF l] by simp
qed

lemma emissions_mem:
  assumes "(s, c) \<in> set (emissions rt mc n seed starter)"
  shows "c \<in> set (lookup (transitions mc) s)"
proof -
  from assms obtain cur w m where "(s, c) \<in> set (gen_trace rt mc m cur w)"
    by (auto simp: emissions_def Let_def split: if_splits sum.splits)
  then show ?thesis by (rule gen_trace_mem)
qed

lemma built_follows:
  assumes "AddText (NewMarkovChain k) corpus = Inr mc"
    and "c \<in> set (lookup (transitions mc) s)"
  shows "follows corpus (nat k) s c"
proof (cases "int (length corpus) \<le> k")
  case True
  with assms(1) have "mc = NewMarkovChain k" by (simp add: AddText_short NewMarkovChain_def)
  with assms(2) show ?thesis by (simp add: NewMarkovChain_def lookup_empty)
next
  case False
  show ?thesis
  proof (cases "k < 0")
    case True
    with AddText_order [OF assms(1)] have "mc = NewMarkovChain k"
      by (simp add: NewMarkovChain_def)
    with assms(2) show ?thesis by (simp add: NewMarkovChain_def lookup_empty)
  next
    case nonneg: False
    with False assms(1) AddText_fresh [of k corpus]
    have "transitions mc = spec_build (nat k) corpus" by auto
    with assms(2) show ?thesis
      by (auto simp: lookup_spec_build follows_def)
  qed
qed

lemma emitted_runes_follow:
  assumes "AddText (NewMarkovChain k) corpus = Inr mc"
  shows "c \<in> set (lookup (transitions mc) s) \<Longrightarrow> follows corpus (nat k) s c"
    and "(s, c) \<in> set (emissions rt mc n seed starter) \<Longrightarrow> follows corpus (nat k) s c"
    and "Generate rt mc n seed starter = Inr out \<Longrightarrow>
           out = take (nat n) starter @
             concat (map (\<lambda>(s, c). encodeRune c) (emissions rt mc n seed starter))"
  using built_follows [OF assms] emissions_mem [of s c rt mc n seed starter]
    Generate_emissions [of rt mc n seed starter out]
  by blast+

section \<open>Runs of the model on small chains\<close>

lemma rune_of_byte_ascii: "rune_of_byte CHR ''a'' = 97" "rune_of_byte CHR ''b'' = 98"
  by (simp_all add: rune_of_byte_def)

lemma rune_of_byte_utf8: "rune_of_byte (CHR 0xC3) = 0xC3" "rune_of_byte (CHR 0xA9) = 0xA9"
  by (simp_all add: rune_of_byte_def)

lemma encodeRune_C3: "encodeRune 0xC3 = [CHR 0xC3, CHR 0x83]"
  by (simp add: encodeRune_def byte_of_def char_of_def)

lemma encodeRune_examples:
  "encodeRune 97 = ''a''" "encodeRune 98 = ''b''"
  by (simp_all add: encodeRune_def byte_of_def char_of_def)

lemma length_encodeRune:
  "length (encodeRune c) =
     (if c \<le> 0x7F then 1 else if c \<le> 0x7FF then 2
      else if 0x10FFFF < c \<or> (0xD800 \<le> c \<and> c \<le> 0xDFFF) then 3
      else if c \<le> 0xFFFF then 3 else 4)"
  by (simp add: encodeRune_def)

lemma length_advance:
  "length (advance k cur c) =
     (if 1 < k \<and> cur \<noteq> [] then length cur - 1 + length (encodeRune c)
      else length (encodeRune c))"
  by (simp add: advance_def)

lemma aba_table:
  "AddText (NewMarkovChain 1) ''aba'' =
     Inr \<lparr>transitions = [''a'' \<mapsto> [98], ''b'' \<mapsto> [97]], order = 1\<rparr>"
  by (simp add: AddText_nonneg NewMarkovChain_def spec_record_def lookup_def fun_upd_twist
      upt_rec_numeral rune_of_byte_ascii)

lemmas walk_defs = initial_state_def random_state_def Intn_def go_nth_def gen_step_def drawn_from_def
  pick_next_def advance_def lookup_def go_slice_from_def go_slice_to_def

lemma example_walk2:
  "emissions (example_runtime [''a'', ''b''])
     \<lparr>transitions = [''a'' \<mapsto> map rune_of_byte ''bbb'', ''b'' \<mapsto> map rune_of_byte ''aa''],
          order = 1\<rparr> 2 0 '''' = [(''a'', 98), (''b'', 97)]"
  apply (simp add: emissions_def rune_of_byte_ascii)
  apply (simp add: example_runtime_def walk_defs encodeRune_examples numeral_2_eq_2)
  done

lemma draw_one:
  assumes "runtime_ok rt T"
  shows "\<exists>g'. rand_Intn rt g 1 = (0, g')"
proof -
  from assms have a: "\<And>g n. 0 < n \<Longrightarrow> fst (rand_Intn rt g n) < n"
    unfolding runtime_ok_def by blast
  have "fst (rand_Intn rt g 1) < 1" by (rule a) simp
  then have "fst (rand_Intn rt g 1) = 0" by simp
  then show ?thesis by (cases "rand_Intn rt g 1") simp
qed

lemma draw_below:
  assumes "\<forall>g n. 0 < n \<longrightarrow> fst (rand_Intn rt g n) < n" and "0 < n"
  shows "\<exists>i g'. rand_Intn rt g n = (i, g') \<and> i < n"
proof -
  from assms have "fst (rand_Intn rt g n) < n" by blast
  then show ?thesis by (cases "rand_Intn rt g n") simp
qed

lemma aba_chain:
  assumes "AddText (NewMarkovChain 1) ''aba'' = Inr mc"
  shows "mc = \<lparr>transitions = [''a'' \<mapsto> [98], ''b'' \<mapsto> [97]], order = 1\<rparr>"
proof -
  from assms have "Inr mc =
      (Inr \<lparr>transitions = [''a'' \<mapsto> [98], ''b'' \<mapsto> [97]], order = 1\<rparr> :: panic + MarkovChain)"
    by (simp only: aba_table)
  then show ?thesis by (simp only: sum.inject)
qed

lemma aba_first_key:
  assumes keys: "range_keys rt 0 = [k1, k2]"
  shows "rand_Intn rt g0 2 = (0, g1) \<Longrightarrow>
     initial_state rt \<lparr>transitions = [''a'' \<mapsto> [98], ''b'' \<mapsto> [97]], order = 1\<rparr> [] (g0, 0) =
     Inr (k1, (g1, 1))"
    and "rand_Intn rt g0 2 = (1, g1) \<Longrightarrow>
     initial_state rt \<lparr>transitions = [''a'' \<mapsto> [98], ''b'' \<mapsto> [97]], order = 1\<rparr> [] (g0, 0) =
     Inr (k2, (g1, 1))"
  using keys
  by (simp_all add: initial_state_def random_state_def Intn_def go_nth_def numeral_2_eq_2)

lemma aba_step:
  assumes d: "rand_Intn rt g 1 = (0, g')"
  shows "gen_step rt \<lparr>transitions = [''a'' \<mapsto> [98], ''b'' \<mapsto> [97]], order = 1\<rparr> ''a'' (g, j) =
           Inr (Emit 98 ''b'' (g', j))"
    and "gen_step rt \<lparr>transitions = [''a'' \<mapsto> [98], ''b'' \<mapsto> [97]], order = 1\<rparr> ''b'' (g, j) =
           Inr (Emit 97 ''a'' (g', j))"
  using d
  by (simp_all add: gen_step_def pick_next_def Intn_def go_nth_def advance_def lookup_def
        encodeRune_examples)

lemma aba_generate:
  assumes d: "rand_Intn rt g1 1 = (0, g2)"
  shows "initial_state rt \<lparr>transitions = [''a'' \<mapsto> [98], ''b'' \<mapsto> [97]], order = 1\<rparr> []
           (if seed < 0 then rand_Seed rt (time_Now rt) else rand_Seed rt seed, 0) = Inr (''a'', (g1, 1))
         \<Longrightarrow> Generate rt \<lparr>transitions = [''a'' \<mapsto> [98], ''b'' \<mapsto> [97]], order = 1\<rparr> 1 seed [] = Inr ''b''"
    and "initial_state rt \<lparr>transitions = [''a'' \<mapsto> [98], ''b'' \<mapsto> [97]], order = 1\<rparr> []
           (if seed < 0 then rand_Seed rt (time_Now rt) else rand_Seed rt seed, 0) = Inr (''b'', (g1, 1))
         \<Longrightarrow> Generate rt \<lparr>transitions = [''a'' \<mapsto> [98], ''b'' \<mapsto> [97]], order = 1\<rparr> 1 seed [] = Inr ''a''"
proof -
  let ?mc = "\<lparr>transitions = [''a'' \<mapsto> [98], ''b'' \<mapsto> [97]], order = 1\<rparr>"
  let ?g0 = "if seed < 0 then rand_Seed rt (time_Now rt) else rand_Seed rt seed"
  have gen: "Generate rt ?mc 1 seed [] = (case initial_state rt ?mc [] (?g0, 0) of
              Inl e \<Rightarrow> Inl e
            | Inr (cur, w) \<Rightarrow> gen_loop rt ?mc (nat 1) cur w [])"
    by (simp add: Generate_def Let_def)
  show "Generate rt ?mc 1 seed [] = Inr ''b''"
    if "initial_state rt ?mc [] (?g0, 0) = Inr (''a'', (g1, 1))"
    unfolding gen that using aba_step(1) [OF d, of 1] by (simp add: encodeRune_examples)
  show "Generate rt ?mc 1 seed [] = Inr ''a''"
    if "initial_state rt ?mc [] (?g0, 0) = Inr (''b'', (g1, 1))"
    unfolding gen that using aba_step(2) [OF d, of 1] by (simp add: encodeRune_examples)
qed

lemma ee_table:
  "AddText (NewMarkovChain 1) [CHR 0xC3, CHR 0xA9, CHR 0xC3, CHR 0xA9] =
     Inr \<lparr>transitions = [[CHR 0xC3] \<mapsto> [0xA9, 0xA9], [CHR 0xA9] \<mapsto> [0xC3]], order = 1\<rparr>"
  by (simp add: AddText_nonneg NewMarkovChain_def spec_record_def lookup_def fun_upd_twist
      upt_rec_numeral rune_of_byte_utf8)

lemma ee_chain:
  assumes "AddText (NewMarkovChain 1) [CHR 0xC3, CHR 0xA9, CHR 0xC3, CHR 0xA9] = Inr mc"
  shows "mc = \<lparr>transitions = [[CHR 0xC3] \<mapsto> [0xA9, 0xA9], [CHR 0xA9] \<mapsto> [0xC3]], order = 1\<rparr>"
proof -
  from assms have "Inr mc =
      (Inr \<lparr>transitions = [[CHR 0xC3] \<mapsto> [0xA9, 0xA9], [CHR 0xA9] \<mapsto> [0xC3]], order = 1\<rparr>
        :: panic + MarkovChain)"
    by (simp only: ee_table)
  then show ?thesis by (simp only: sum.inject)
qed

lemma ee_step:
  assumes d: "rand_Intn rt g 1 = (0, g')"
  shows "gen_step rt \<lparr>transitions = [[CHR 0xC3] \<mapsto> [0xA9, 0xA9], [CHR 0xA9] \<mapsto> [0xC3]], order = 1\<rparr>
           [CHR 0xA9] (g, j) = Inr (Emit 0xC3 [CHR 0xC3, CHR 0x83] (g', j))"
  using d
  by (simp add: gen_step_def pick_next_def Intn_def go_nth_def advance_def lookup_def encodeRune_C3)

lemma ee_output:
  assumes d: "rand_Intn rt (if seed < 0 then rand_Seed rt (time_Now rt) else rand_Seed rt seed) 1 = (0, g')"
  shows "Generate rt \<lparr>transitions = [[CHR 0xC3] \<mapsto> [0xA9, 0xA9], [CHR 0xA9] \<mapsto> [0xC3]], order = 1\<rparr>
           3 seed [CHR 0xC3, CHR 0xA9] = Inr [CHR 0xC3, CHR 0xA9, CHR 0xC3, CHR 0x83]"
proof -
  let ?mc = "\<lparr>transitions = [[CHR 0xC3] \<mapsto> [0xA9, 0xA9], [CHR 0xA9] \<mapsto> [0xC3]], order = 1\<rparr>"
  let ?g0 = "if seed < 0 then rand_Seed rt (time_Now rt) else rand_Seed rt seed"
  have i: "initial_state rt ?mc [CHR 0xC3, CHR 0xA9] (?g0, 0) = Inr ([CHR 0xA9], (?g0, 0))"
    by (simp add: initial_state_def go_slice_from_def)
  have gen: "Generate rt ?mc 3 seed [CHR 0xC3, CHR 0xA9] =
      (case initial_state rt ?mc [CHR 0xC3, CHR 0xA9] (?g0, 0) of
         Inl e \<Rightarrow> Inl e
       | Inr (cur, w) \<Rightarrow> gen_loop rt ?mc (nat 1) cur w [CHR 0xC3, CHR 0xA9])"
    by (simp add: Generate_def Let_def)
  show ?thesis unfolding gen i using ee_step [OF d, of 0] by (simp add: encodeRune_C3)
qed

lemma ee_emissions:
  assumes d: "rand_Intn rt (if seed < 0 then rand_Seed rt (time_Now rt) else rand_Seed rt seed) 1 = (0, g')"
  shows "emissions rt \<lparr>transitions = [[CHR 0xC3] \<mapsto> [0xA9, 0xA9], [CHR 0xA9] \<mapsto> [0xC3]], order = 1\<rparr>
           3 seed [CHR 0xC3, CHR 0xA9] = [([CHR 0xA9], 0xC3)]"
proof -
  let ?mc = "\<lparr>transitions = [[CHR 0xC3] \<mapsto> [0xA9, 0xA9], [CHR 0xA9] \<mapsto> [0xC3]], order = 1\<rparr>"
  let ?g0 = "if seed < 0 then rand_Seed rt (time_Now rt) else rand_Seed rt seed"
  have i: "initial_state rt ?mc [CHR 0xC3, CHR 0xA9] (?g0, 0) = Inr ([CHR 0xA9], (?g0, 0))"
    by (simp add: initial_state_def go_slice_from_def)
  have em: "emissions rt ?mc 3 seed [CHR 0xC3, CHR 0xA9] =
      (case initial_state rt ?mc [CHR 0xC3, CHR 0xA9] (?g0, 0) of
         Inl e \<Rightarrow> []
       | Inr (cur, w) \<Rightarrow> gen_trace rt ?mc (nat 1) cur w)"
    by (simp add: emissions_def Let_def)
  have dr: "drawn_from rt ?mc [CHR 0xA9] (?g0, 0) = [CHR 0xA9]"
    by (simp add: drawn_from_def lookup_def)
  show ?thesis unfolding em i using ee_step [OF d, of 0] dr by simp
qed

lemma rune_of_byte_83: "rune_of_byte (CHR 0x83) = 0x83"
  by (simp add: rune_of_byte_def)

lemma ee_not_follows:
  "\<not> follows [CHR 0xC3, CHR 0xA9, CHR 0xC3, CHR 0xA9] 1 [CHR 0xA9] (rune_of_byte (CHR 0x83))"
proof -
  have "{0..<length [CHR 0xC3, CHR 0xA9, CHR 0xC3, CHR 0xA9] - 1} = {0, 1, 2::nat}"
    by auto
  then show ?thesis
    by (simp add: follows_def rune_of_byte_utf8 rune_of_byte_83)
qed

lemma aba_ca_tables:
  "AddTexts (NewMarkovChain 1) [''aba'', ''ca''] =
     Inr \<lparr>transitions = [''a'' \<mapsto> map rune_of_byte ''b'', ''b'' \<mapsto> map rune_of_byte ''a'',
            ''c'' \<mapsto> map rune_of_byte ''a''], order = 1\<rparr>"
  by (simp add: AddText_nonneg NewMarkovChain_def spec_record_def lookup_def fun_upd_twist
      upt_rec_numeral)

section \<open>What holds for ASCII successors\<close>

text \<open>
  \<^verbatim>\<open>WriteRune\<close> and \<^verbatim>\<open>string(nextChar)\<close> give one byte exactly for the runes below
  128. For a table without empty lists whose runes are all below 128, the
  result has the requested length and a cursor update keeps the length of the
  cursor.
\<close>

lemma Generate_nonpositive:
  "n \<le> 0 \<Longrightarrow> Generate rt mc n seed starter = Inr []"
  by (simp add: Generate_def)

lemma advance_length_ascii:
  assumes "c \<le> 0x7F" and "1 \<le> k" and "int (length cur) = k"
  shows "int (length (advance k cur c)) = k"
  using assms by (auto simp: length_advance length_encodeRune)

lemma gen_step_emits_from_table:
  assumes "gen_step rt mc cur w = Inr (Emit c cur' w')"
  shows "\<exists>rs \<in> ran (transitions mc). c \<in> set rs"
proof -
  have *: "\<exists>rs \<in> ran T. c \<in> set rs" if "c \<in> set (lookup T s)" for T :: "string \<rightharpoonup> rune list" and s
    using that by (cases "T s") (auto simp: lookup_def ran_def)
  show ?thesis
  proof (cases "lookup (transitions mc) cur = []")
    case False
    with assms have "c \<in> set (lookup (transitions mc) cur)" by (rule_tac gen_step_mem)
    then show ?thesis by (rule *)
  next
    case True
    with assms obtain s w1 where "random_state rt w = Inr (s, w1)"
      and "pick_next rt mc s (lookup (transitions mc) s) w1 = Inr (Emit c cur' w')"
      by (auto simp: gen_step_def split: sum.splits if_splits)
    then have "c \<in> set (lookup (transitions mc) s)" by (auto dest: pick_next_mem)
    then show ?thesis by (rule *)
  qed
qed

lemma gen_loop_length_ascii:
  assumes ok: "runtime_ok rt (transitions mc)" and ne: "dom (transitions mc) \<noteq> {}"
    and full: "[] \<notin> ran (transitions mc)"
    and ascii: "\<forall>rs \<in> ran (transitions mc). \<forall>c \<in> set rs. c \<le> 0x7F"
  shows "\<exists>out. gen_loop rt mc n cur w acc = Inr out \<and> length out = length acc + n"
proof (induction n arbitrary: cur w acc)
  case 0
  then show ?case by simp
next
  case (Suc n)
  from gen_step_cases [OF ok ne, of cur w] gen_step_no_break [OF full ok, of cur w]
  obtain c cur' w' where s: "gen_step rt mc cur w = Inr (Emit c cur' w')" by blast
  from gen_step_emits_from_table [OF s] ascii have "c \<le> 0x7F" by blast
  then have l: "length (encodeRune c) = 1" by (simp add: length_encodeRune)
  from Suc.IH [of cur' w' "acc @ encodeRune c"] obtain out
    where "gen_loop rt mc n cur' w' (acc @ encodeRune c) = Inr out"
      and "length out = length (acc @ encodeRune c) + n" by blast
  with s l show ?case by simp
qed

lemma Generate_length_ascii:
  assumes ok: "runtime_ok rt (transitions mc)" and ne: "dom (transitions mc) \<noteq> {}"
    and full: "[] \<notin> ran (transitions mc)"
    and ascii: "\<forall>rs \<in> ran (transitions mc). \<forall>c \<in> set rs. c \<le> 0x7F"
    and k: "0 \<le> order mc"
  shows "\<exists>out. Generate rt mc n seed starter = Inr out \<and> int (length out) = max 0 n"
proof (cases "n \<le> int (length starter)")
  case True
  then show ?thesis using ne by (auto simp: Generate_def go_slice_to_def Let_def)
next
  case False
  let ?g = "if seed < 0 then rand_Seed rt (time_Now rt) else rand_Seed rt seed"
  from initial_state_ok [OF ok ne k, of starter "(?g, 0)"] obtain cur w
    where i: "initial_state rt mc starter (?g, 0) = Inr (cur, w)" by blast
  from gen_loop_length_ascii [OF ok ne full ascii, of "nat (n - int (length starter))" cur w starter]
  obtain out where "gen_loop rt mc (nat (n - int (length starter))) cur w starter = Inr out"
    and "length out = length starter + nat (n - int (length starter))" by blast
  with i False ne have "Generate rt mc n seed starter = Inr out \<and> int (length out) = max 0 n"
    by (simp add: Generate_def Let_def)
  then show ?thesis by blast
qed

section \<open>The table that AddText builds\<close>

text \<open>
  Claim C4 (build algorithm). For every corpus and order with
  \<^verbatim>\<open>len(corpus) > order > 0\<close>, \<^verbatim>\<open>AddText\<close> on a new chain returns, without a panic,
  the table that the specification's scan produces (\<open>spec_build\<close>: for each
  index \<open>i\<close> from 0 to \<open>len(corpus) - order - 1\<close> in turn, append \<open>corpus[i+order]\<close>
  to the entry of \<open>corpus[i : i+order]\<close>). Nothing else is recorded: the keys
  are exactly the windows at these indices, and the entry of a state lists,
  in corpus order, the characters after the windows equal to it. For the
  corpus \<^verbatim>\<open>ababab\<close> and order 1 the table is \<^verbatim>\<open>{a: [b,b,b], b: [a,a]}\<close>.
\<close>

theorem AddText_builds_table:
  "(0 < k \<and> k < int (length corpus) \<longrightarrow>
      AddText (NewMarkovChain k) corpus =
        Inr \<lparr>transitions = spec_build (nat k) corpus, order = k\<rparr> \<and>
      dom (spec_build (nat k) corpus) =
        (\<lambda>i. take (nat k) (drop i corpus)) ` {0..<length corpus - nat k} \<and>
      (\<forall>s. lookup (spec_build (nat k) corpus) s =
        map (\<lambda>i. rune_of_byte (corpus ! (i + nat k)))
          (filter (\<lambda>i. take (nat k) (drop i corpus) = s) [0..<length corpus - nat k]))) \<and>
   AddText (NewMarkovChain 1) ''ababab'' =
     Inr \<lparr>transitions = [''a'' \<mapsto> map rune_of_byte ''bbb'', ''b'' \<mapsto> map rune_of_byte ''aa''],
          order = 1\<rparr>"
  using AddText_fresh [of k corpus] lookup_spec_build [of "nat k" corpus]
    dom_spec_build [of "nat k" corpus] ababab_table
  by simp

theorem AddText_builds_table_witness:
  "AddText (NewMarkovChain 2) ''abcabd'' =
     Inr \<lparr>transitions = spec_build 2 ''abcabd'', order = 2\<rparr> \<and>
   lookup (spec_build 2 ''abcabd'') ''ab'' = map rune_of_byte ''cd'' \<and>
   lookup (spec_build 2 ''abcabd'') ''bc'' = map rune_of_byte ''a'' \<and>
   lookup (spec_build 2 ''abcabd'') ''bd'' = []"
  using AddText_builds_table [of 2 "''abcabd''"]
  by (simp add: upt_rec_numeral)

text \<open>
  Claim C3 (degenerate inputs of build), as amended. The claim as written says
  that \<^verbatim>\<open>order <= 0\<close> leaves the table empty and that \<^verbatim>\<open>AddText\<close> never fails. The
  only guard of \<^verbatim>\<open>AddText\<close> is \<^verbatim>\<open>len(text) <= mc.order\<close>. What holds: when
  \<^verbatim>\<open>len(text) <= order\<close> the chain is returned unchanged, so a new chain keeps its
  empty table; for every order \<open>\<ge> 0\<close> \<^verbatim>\<open>AddText\<close> returns without a panic; and with
  order 0 and a non-empty text the table is not empty: its one entry, for the
  empty state, lists every character of the text. Nothing is said here of
  negative orders.
\<close>

theorem AddText_degenerate:
  "(int (length text) \<le> order mc \<longrightarrow> AddText mc text = Inr mc) \<and>
   (0 \<le> order mc \<longrightarrow> (\<exists>mc'. AddText mc text = Inr mc')) \<and>
   (text \<noteq> [] \<longrightarrow> AddText (NewMarkovChain 0) text =
      Inr \<lparr>transitions = [[] \<mapsto> map rune_of_byte text], order = 0\<rparr>)"
proof (intro conjI impI)
  assume "int (length text) \<le> order mc"
  then show "AddText mc text = Inr mc" by (rule AddText_short)
next
  assume k: "0 \<le> order mc"
  show "\<exists>mc'. AddText mc text = Inr mc'"
  proof (cases "int (length text) \<le> order mc")
    case True
    then show ?thesis by (simp add: AddText_short)
  next
    case False
    with k AddText_nonneg [of mc "text"] show ?thesis by simp
  qed
next
  assume "text \<noteq> []"
  then show "AddText (NewMarkovChain 0) text =
      Inr \<lparr>transitions = [[] \<mapsto> map rune_of_byte text], order = 0\<rparr>"
    by (rule order_zero_table)
qed

theorem AddText_degenerate_witness:
  "AddText (NewMarkovChain 3) ''ab'' = Inr (NewMarkovChain 3) \<and>
   (\<exists>mc'. AddText (NewMarkovChain 1) ''ab'' = Inr mc') \<and>
   AddText (NewMarkovChain 0) ''ab'' =
     Inr \<lparr>transitions = [[] \<mapsto> map rune_of_byte ''ab''], order = 0\<rparr>"
  using AddText_degenerate [of "''ab''" "NewMarkovChain 3"]
    AddText_degenerate [of "''ab''" "NewMarkovChain 1"]
  by (simp add: NewMarkovChain_def)

text \<open>
  The claim C3 as written fails: with order 0 the corpus \<^verbatim>\<open>ab\<close> gives a table
  that is not empty, and with order -1 the first window \<^verbatim>\<open>text[0:-1]\<close> panics.
\<close>

theorem AddText_degenerate_counterexample:
  "AddText (NewMarkovChain 0) ''ab'' =
     Inr \<lparr>transitions = [[] \<mapsto> map rune_of_byte ''ab''], order = 0\<rparr> \<and>
   [[] \<mapsto> map rune_of_byte ''ab''] \<noteq> (Map.empty :: string \<rightharpoonup> rune list) \<and>
   AddText (NewMarkovChain (- 1)) ''ab'' = Inl SliceBounds"
  using order_zero_table [of "''ab''"] AddText_negative_one
  by simp

section \<open>The starter laws and the empty table\<close>

text \<open>
  Claim C7 (starter truncation law). For every table, order, seed and runtime, and
  every positive length: when \<^verbatim>\<open>len(starter) >= length\<close>, \<^verbatim>\<open>Generate\<close> returns exactly
  the first \<^verbatim>\<open>length\<close> characters of the starter. The table may be empty or
  not; nothing is asked of the runtime, so no draw matters.
\<close>

theorem starter_truncation:
  assumes "0 < n" and "n \<le> int (length starter)"
  shows "Generate rt mc n seed starter = Inr (take (nat n) starter)"
  using assms by (simp add: Generate_def go_slice_to_def Let_def)

theorem starter_truncation_witness:
  "Generate (example_runtime [''a'', ''b''])
     \<lparr>transitions = [''a'' \<mapsto> [98], ''b'' \<mapsto> [97]], order = 1\<rparr> 2 7 ''abc'' = Inr ''ab''"
  using starter_truncation [of 2 "''abc''" "example_runtime [''a'', ''b'']"
      "\<lparr>transitions = [''a'' \<mapsto> [98], ''b'' \<mapsto> [97]], order = 1\<rparr>" 7]
  by (simp add: numeral_2_eq_2)

text \<open>
  Claim C6 (empty-table fallback). For every positive length, seed and starter:
  when the table is empty, \<^verbatim>\<open>Generate\<close> returns the starter cut to at most
  \<^verbatim>\<open>length\<close> characters, which is the whole starter when
  \<^verbatim>\<open>len(starter) <= length\<close>, and the walk emits nothing. The runtime is
  arbitrary: the result is the same under a runtime whose every draw would
  panic, so no generation step runs.
\<close>

theorem empty_table_fallback:
  assumes "0 < n" and "dom (transitions mc) = {}"
  shows "Generate rt mc n seed starter = Inr (take (nat n) starter) \<and>
         (int (length starter) \<le> n \<longrightarrow> Generate rt mc n seed starter = Inr starter) \<and>
         emissions rt mc n seed starter = []"
  using assms by (simp add: Generate_def emissions_def go_slice_to_def Let_def)

theorem empty_table_fallback_witness:
  "AddText (NewMarkovChain 2) ''x'' = Inr (NewMarkovChain 2) \<and>
   Generate (example_runtime []) (NewMarkovChain 2) 5 0 ''hi'' = Inr ''hi'' \<and>
   Generate (example_runtime []) (NewMarkovChain 2) 1 0 ''hi'' = Inr ''h''"
  using empty_table_fallback [of 5 "NewMarkovChain 2" "example_runtime []" 0 "''hi''"]
    empty_table_fallback [of 1 "NewMarkovChain 2" "example_runtime []" 0 "''hi''"]
  by (simp add: NewMarkovChain_def AddText_short)

text \<open>
  Claim C8 (starter prefix law). Whenever \<^verbatim>\<open>len(starter) < length\<close>, \<^verbatim>\<open>Generate\<close>
  returns a string and its first \<^verbatim>\<open>len(starter)\<close> characters are the starter.
  The chain is any chain with a non-negative order or an empty table. These
  are the chains that \<^verbatim>\<open>NewMarkovChain\<close> and \<^verbatim>\<open>AddText\<close> can produce
  (\<open>AddTexts_chain_ok\<close>): the table is a private field, and \<^verbatim>\<open>AddText\<close> on a
  chain of negative order stores nothing. The runtime is any runtime that
  satisfies \<open>runtime_ok\<close>.
\<close>

theorem starter_prefix:
  assumes ok: "runtime_ok rt (transitions mc)"
    and k: "0 \<le> order mc \<or> dom (transitions mc) = {}"
    and short: "int (length starter) < n"
  shows "\<exists>out. Generate rt mc n seed starter = Inr out \<and> take (length starter) out = starter"
proof (cases "dom (transitions mc) = {}")
  case True
  with short show ?thesis by (simp add: Generate_def Let_def)
next
  case False
  with k have k0: "0 \<le> order mc" by simp
  let ?g = "if seed < 0 then rand_Seed rt (time_Now rt) else rand_Seed rt seed"
  from initial_state_ok [OF ok False k0, of starter "(?g, 0)"] obtain cur w
    where i: "initial_state rt mc starter (?g, 0) = Inr (cur, w)" by blast
  from gen_loop_extends [OF ok False, of "nat (n - int (length starter))" cur w starter]
  obtain suffix where
    "gen_loop rt mc (nat (n - int (length starter))) cur w starter = Inr (starter @ suffix)"
    by blast
  with i False short have "Generate rt mc n seed starter = Inr (starter @ suffix)"
    by (simp add: Generate_def Let_def)
  then show ?thesis by simp
qed

theorem starter_prefix_witness:
  "\<exists>out. Generate (example_runtime [''a'', ''b''])
       \<lparr>transitions = [''a'' \<mapsto> [98], ''b'' \<mapsto> [97]], order = 1\<rparr> 4 0 ''xa'' = Inr out \<and>
     take (length ''xa'') out = ''xa''"
proof -
  have "runtime_ok (example_runtime [''a'', ''b'']) [''a'' \<mapsto> [98], ''b'' \<mapsto> [97]]"
    by (rule example_runtime_ok) auto
  then show ?thesis
    using starter_prefix [of "example_runtime [''a'', ''b'']"
      "\<lparr>transitions = [''a'' \<mapsto> [98], ''b'' \<mapsto> [97]], order = 1\<rparr>" "''xa''" 4 0]
    by simp
qed

section \<open>Non-empty successor lists\<close>

text \<open>
  Claim C10 (non-empty successor lists). After any sequence of \<^verbatim>\<open>AddText\<close> calls
  on a new chain, of any order, that runs without a panic, the table holds no
  empty list: the list of every key has at least one rune. Hence, under a
  runtime that satisfies \<open>runtime_ok\<close>, no pass through the generation loop
  takes the early-stop branch, whatever the cursor: \<open>gen_step\<close> never returns
  \<open>Break\<close>. The calls that return include those with a negative order whose
  loop bound wraps (\<open>AddText_least_int\<close>); they leave the table as it was.
\<close>

theorem built_table_has_no_empty_list:
  assumes "AddTexts (NewMarkovChain k) texts = Inr mc"
  shows "[] \<notin> ran (transitions mc) \<and>
         (\<forall>s \<in> dom (transitions mc). 1 \<le> length (lookup (transitions mc) s)) \<and>
         (runtime_ok rt (transitions mc) \<longrightarrow> gen_step rt mc cur w \<noteq> Inr Break)"
proof -
  have "[] \<notin> ran (transitions (NewMarkovChain k))" by (simp add: NewMarkovChain_def)
  with assms have r: "[] \<notin> ran (transitions mc)" by (rule AddTexts_ran)
  moreover have "1 \<le> length (lookup (transitions mc) s)" if "s \<in> dom (transitions mc)" for s
    using lookup_nonempty [OF r that] by (cases "lookup (transitions mc) s") simp_all
  moreover have "gen_step rt mc cur w \<noteq> Inr Break" if "runtime_ok rt (transitions mc)"
    using r that by (rule gen_step_no_break)
  ultimately show ?thesis by blast
qed

theorem built_table_has_no_empty_list_witness:
  "[] \<notin> ran [''a'' \<mapsto> map rune_of_byte ''b'', ''b'' \<mapsto> map rune_of_byte ''a'',
            ''c'' \<mapsto> map rune_of_byte ''a''] \<and>
   gen_step (example_runtime [''a'', ''b'', ''c''])
     \<lparr>transitions = [''a'' \<mapsto> map rune_of_byte ''b'', ''b'' \<mapsto> map rune_of_byte ''a'',
            ''c'' \<mapsto> map rune_of_byte ''a''], order = 1\<rparr> ''z'' (0, 0) \<noteq> Inr Break"
proof -
  have "runtime_ok (example_runtime [''a'', ''b'', ''c''])
     [''a'' \<mapsto> map rune_of_byte ''b'', ''b'' \<mapsto> map rune_of_byte ''a'', ''c'' \<mapsto> map rune_of_byte ''a'']"
    by (rule example_runtime_ok) auto
  with built_table_has_no_empty_list [OF aba_ca_tables,
      of "example_runtime [''a'', ''b'', ''c'']" "''z''" "(0, 0)"]
  show ?thesis by simp
qed

section \<open>Seeds, map order and characters outside ASCII\<close>

text \<open>
  Claim C1 (determinism under a fixed seed) does not hold of the code.
  \<^verbatim>\<open>Generate\<close> collects the keys of the table with a \<^verbatim>\<open>range\<close> loop and indexes
  the list with a seeded draw; the order of the list is the runtime's choice, not
  the seed's. Take the chain built from the corpus \<^verbatim>\<open>aba\<close> with order 1, length
  1, an empty starter, any seed, and any generator whose draws are in range.
  Under the iteration order \<^verbatim>\<open>a, b\<close> and under the order \<^verbatim>\<open>b, a\<close>, both of which
  satisfy \<open>runtime_ok\<close>, the two calls return different strings: one returns
  \<^verbatim>\<open>a\<close> and the other \<^verbatim>\<open>b\<close>.
\<close>

theorem seeded_output_depends_on_map_order:
  assumes built: "AddText (NewMarkovChain 1) ''aba'' = Inr mc"
    and draw: "\<forall>g n. 0 < n \<longrightarrow> fst (rand_Intn rt g n) < n"
  shows "runtime_ok (rt\<lparr>range_keys := \<lambda>j. [''a'', ''b'']\<rparr>) (transitions mc) \<and>
         runtime_ok (rt\<lparr>range_keys := \<lambda>j. [''b'', ''a'']\<rparr>) (transitions mc) \<and>
         (Generate (rt\<lparr>range_keys := \<lambda>j. [''a'', ''b'']\<rparr>) mc 1 seed '''' = Inr ''b'' \<and>
          Generate (rt\<lparr>range_keys := \<lambda>j. [''b'', ''a'']\<rparr>) mc 1 seed '''' = Inr ''a'' \<or>
          Generate (rt\<lparr>range_keys := \<lambda>j. [''a'', ''b'']\<rparr>) mc 1 seed '''' = Inr ''a'' \<and>
          Generate (rt\<lparr>range_keys := \<lambda>j. [''b'', ''a'']\<rparr>) mc 1 seed '''' = Inr ''b'')"
proof -
  let ?mc = "\<lparr>transitions = [''a'' \<mapsto> [98], ''b'' \<mapsto> [97]], order = 1\<rparr>"
  let ?rt1 = "rt\<lparr>range_keys := \<lambda>j. [''a'', ''b'']\<rparr>"
  let ?rt2 = "rt\<lparr>range_keys := \<lambda>j. [''b'', ''a'']\<rparr>"
  let ?g0 = "if seed < 0 then rand_Seed rt (time_Now rt) else rand_Seed rt seed"
  note mc = aba_chain [OF built]
  from draw have ok1: "runtime_ok ?rt1 (transitions ?mc)"
    by (auto simp: runtime_ok_def)
  from draw have ok2: "runtime_ok ?rt2 (transitions ?mc)"
    by (auto simp: runtime_ok_def)
  from draw_below [OF draw, of 2 ?g0] obtain i g1
    where d1: "rand_Intn rt ?g0 2 = (i, g1)" and i: "i < 2" by auto
  from draw_below [OF draw, of 1 g1] obtain g2
    where d2: "rand_Intn rt g1 1 = (0, g2)" by auto
  have s1: "rand_Intn ?rt1 = rand_Intn rt" "rand_Seed ?rt1 = rand_Seed rt" "time_Now ?rt1 = time_Now rt"
    and s2: "rand_Intn ?rt2 = rand_Intn rt" "rand_Seed ?rt2 = rand_Seed rt" "time_Now ?rt2 = time_Now rt"
    by simp_all
  have k1: "range_keys ?rt1 0 = [''a'', ''b'']" and k2: "range_keys ?rt2 0 = [''b'', ''a'']"
    by simp_all
  from i have "i = 0 \<or> i = 1" by auto
  then have "Generate ?rt1 ?mc 1 seed '''' = Inr ''b'' \<and> Generate ?rt2 ?mc 1 seed '''' = Inr ''a'' \<or>
      Generate ?rt1 ?mc 1 seed '''' = Inr ''a'' \<and> Generate ?rt2 ?mc 1 seed '''' = Inr ''b''"
  proof
    assume "i = 0"
    with d1 have e: "rand_Intn rt ?g0 2 = (0, g1)" by simp
    from e have "rand_Intn ?rt1 (if seed < 0 then rand_Seed ?rt1 (time_Now ?rt1) else rand_Seed ?rt1 seed) 2 = (0, g1)"
      by (simp only: s1)
    from aba_first_key(1) [OF k1 this] d2
    have "Generate ?rt1 ?mc 1 seed '''' = Inr ''b''"
      by (intro aba_generate(1) [of ?rt1 g1 g2]) (simp_all only: s1)
    moreover
    from e have "rand_Intn ?rt2 (if seed < 0 then rand_Seed ?rt2 (time_Now ?rt2) else rand_Seed ?rt2 seed) 2 = (0, g1)"
      by (simp only: s2)
    from aba_first_key(1) [OF k2 this] d2
    have "Generate ?rt2 ?mc 1 seed '''' = Inr ''a''"
      by (intro aba_generate(2) [of ?rt2 g1 g2]) (simp_all only: s2)
    ultimately show ?thesis by blast
  next
    assume "i = 1"
    with d1 have e: "rand_Intn rt ?g0 2 = (1, g1)" by simp
    from e have "rand_Intn ?rt1 (if seed < 0 then rand_Seed ?rt1 (time_Now ?rt1) else rand_Seed ?rt1 seed) 2 = (1, g1)"
      by (simp only: s1)
    from aba_first_key(2) [OF k1 this] d2
    have "Generate ?rt1 ?mc 1 seed '''' = Inr ''a''"
      by (intro aba_generate(2) [of ?rt1 g1 g2]) (simp_all only: s1)
    moreover
    from e have "rand_Intn ?rt2 (if seed < 0 then rand_Seed ?rt2 (time_Now ?rt2) else rand_Seed ?rt2 seed) 2 = (1, g1)"
      by (simp only: s2)
    from aba_first_key(2) [OF k2 this] d2
    have "Generate ?rt2 ?mc 1 seed '''' = Inr ''b''"
      by (intro aba_generate(1) [of ?rt2 g1 g2]) (simp_all only: s2)
    ultimately show ?thesis by blast
  qed
  with ok1 ok2 show ?thesis unfolding mc by simp
qed

theorem seeded_output_depends_on_map_order_witness:
  "Generate (example_runtime [''a'', ''b''])
     \<lparr>transitions = [''a'' \<mapsto> [98], ''b'' \<mapsto> [97]], order = 1\<rparr> 1 0 '''' = Inr ''b'' \<and>
   Generate (example_runtime [''b'', ''a''])
     \<lparr>transitions = [''a'' \<mapsto> [98], ''b'' \<mapsto> [97]], order = 1\<rparr> 1 0 '''' = Inr ''a''"
proof -
  have draw: "\<forall>g n. 0 < n \<longrightarrow> fst (rand_Intn (example_runtime []) g n) < n"
    by (simp add: example_runtime_def)
  have r: "(example_runtime [])\<lparr>range_keys := \<lambda>j. ks\<rparr> = example_runtime ks" for ks
    by (simp add: example_runtime_def)
  note t = seeded_output_depends_on_map_order [OF aba_table draw, of 0, unfolded r]
  have "Generate (example_runtime [''a'', ''b''])
     \<lparr>transitions = [''a'' \<mapsto> [98], ''b'' \<mapsto> [97]], order = 1\<rparr> 1 0 '''' = Inr ''b''"
    apply (simp add: Generate_def)
    apply (simp add: example_runtime_def walk_defs encodeRune_examples)
    done
  with t show ?thesis by simp
qed

text \<open>
  Claim C2 (length contract) does not hold of the code for characters outside
  ASCII. \<^verbatim>\<open>AddText\<close> stores the byte after a window as a rune and \<^verbatim>\<open>Generate\<close>
  writes the rune with \<^verbatim>\<open>WriteRune\<close>, which encodes it in UTF-8, so a byte of value
  128 or more comes out as two bytes. Take the chain built with order 1 from the
  four bytes \<^verbatim>\<open>C3 A9 C3 A9\<close> (the UTF-8 text of two e-acute letters), the starter
  \<^verbatim>\<open>C3 A9\<close> and length 3. The table is not empty and the one successor list
  that the walk meets is not empty, yet \<^verbatim>\<open>Generate\<close> returns the four bytes
  \<^verbatim>\<open>C3 A9 C3 83\<close>, under every runtime and seed: four bytes, and two characters
  when read as UTF-8, where the claim says three. What does hold is in
  \<open>Generate_nonpositive\<close> and \<open>Generate_length_ascii\<close>.
\<close>

theorem non_ascii_output:
  assumes built: "AddText (NewMarkovChain 1) [CHR 0xC3, CHR 0xA9, CHR 0xC3, CHR 0xA9] = Inr mc"
    and ok: "runtime_ok rt (transitions mc)"
  shows "Generate rt mc 3 seed [CHR 0xC3, CHR 0xA9] = Inr [CHR 0xC3, CHR 0xA9, CHR 0xC3, CHR 0x83] \<and>
         length [CHR 0xC3, CHR 0xA9, CHR 0xC3, CHR 0x83] = (4::nat)"
proof -
  note mc = ee_chain [OF built]
  from draw_one [OF ok] obtain g' where
    "rand_Intn rt (if seed < 0 then rand_Seed rt (time_Now rt) else rand_Seed rt seed) 1 = (0, g')"
    by blast
  from ee_output [OF this] show ?thesis unfolding mc by simp
qed

theorem non_ascii_output_witness:
  "Generate (example_runtime [[CHR 0xC3], [CHR 0xA9]])
     \<lparr>transitions = [[CHR 0xC3] \<mapsto> [0xA9, 0xA9], [CHR 0xA9] \<mapsto> [0xC3]], order = 1\<rparr>
     3 0 [CHR 0xC3, CHR 0xA9] = Inr [CHR 0xC3, CHR 0xA9, CHR 0xC3, CHR 0x83]"
proof -
  have "runtime_ok (example_runtime [[CHR 0xC3], [CHR 0xA9]])
      (transitions \<lparr>transitions = [[CHR 0xC3] \<mapsto> [0xA9, 0xA9], [CHR 0xA9] \<mapsto> [0xC3]], order = 1\<rparr>)"
    by (rule example_runtime_ok) auto
  from non_ascii_output [OF ee_table this, of 0] show ?thesis by simp
qed

text \<open>
  Claim C9 (cursor length invariant) does not hold of the code for every
  emitted character. The cursor update appends \<^verbatim>\<open>string(nextChar)\<close>, the UTF-8
  encoding of the rune, which has two bytes for a rune of value 128 to 255. In
  the chain built with order 1 from the bytes \<^verbatim>\<open>C3 A9 C3 A9\<close>, a pass that starts
  with the cursor \<^verbatim>\<open>A9\<close>, of length 1, emits the rune 0xC3 and leaves the
  cursor \<^verbatim>\<open>C3 83\<close>, of length 2. For a rune below 128 the length is kept
  (\<open>advance_length_ascii\<close>).
\<close>

theorem non_ascii_step:
  assumes built: "AddText (NewMarkovChain 1) [CHR 0xC3, CHR 0xA9, CHR 0xC3, CHR 0xA9] = Inr mc"
    and ok: "runtime_ok rt (transitions mc)"
  shows "\<exists>w'. gen_step rt mc [CHR 0xA9] w =
           Inr (Emit (rune_of_byte (CHR 0xC3)) [CHR 0xC3, CHR 0x83] w') \<and>
         int (length [CHR 0xA9]) = order mc \<and>
         int (length [CHR 0xC3, CHR 0x83]) = order mc + 1"
proof -
  note mc = ee_chain [OF built]
  obtain g j where w: "w = (g, j)" by (cases w)
  from draw_one [OF ok] obtain g' where "rand_Intn rt g 1 = (0, g')" by blast
  from ee_step [OF this, of j] show ?thesis unfolding mc w by (simp add: rune_of_byte_utf8)
qed

theorem non_ascii_step_witness:
  "\<exists>w'. gen_step (example_runtime [[CHR 0xC3], [CHR 0xA9]])
     \<lparr>transitions = [[CHR 0xC3] \<mapsto> [0xA9, 0xA9], [CHR 0xA9] \<mapsto> [0xC3]], order = 1\<rparr>
     [CHR 0xA9] (0, 0) = Inr (Emit 0xC3 [CHR 0xC3, CHR 0x83] w')"
proof -
  have "runtime_ok (example_runtime [[CHR 0xC3], [CHR 0xA9]])
      (transitions \<lparr>transitions = [[CHR 0xC3] \<mapsto> [0xA9, 0xA9], [CHR 0xA9] \<mapsto> [0xC3]], order = 1\<rparr>)"
    by (rule example_runtime_ok) auto
  from non_ascii_step [OF ee_table this, of "(0, 0)"] show ?thesis
    by (auto simp: rune_of_byte_utf8)
qed

text \<open>
  Claim C5 (transition fidelity) does not hold of the code for characters
  outside ASCII. The table is faithful: every rune in the list of a state is the
  value of a byte that follows an occurrence of the state in the corpus, and
  every rune drawn is taken from the list of the state that the cursor holds at
  the draw (\<open>emitted_runes_follow\<close>). But a pass does not write the byte that
  stood in the corpus: it writes the UTF-8 encoding of the rune. Take the chain
  built with order 1 from the bytes \<^verbatim>\<open>C3 A9 C3 A9\<close>, the starter \<^verbatim>\<open>C3 A9\<close> and
  length 3. The one pass runs with the cursor \<^verbatim>\<open>A9\<close>, whose list is not empty
  (it holds the rune 0xC3, for the byte \<^verbatim>\<open>C3\<close> that follows \<^verbatim>\<open>A9\<close> in the
  corpus), and \<^verbatim>\<open>Generate\<close> appends the two bytes \<^verbatim>\<open>C3 83\<close> to the starter. The
  byte \<^verbatim>\<open>83\<close> follows \<^verbatim>\<open>A9\<close> nowhere in the corpus: it does not occur in the
  corpus at all.
\<close>

theorem non_ascii_emission:
  assumes built: "AddText (NewMarkovChain 1) [CHR 0xC3, CHR 0xA9, CHR 0xC3, CHR 0xA9] = Inr mc"
    and ok: "runtime_ok rt (transitions mc)"
  shows "lookup (transitions mc) [CHR 0xA9] = [rune_of_byte (CHR 0xC3)] \<and>
         emissions rt mc 3 seed [CHR 0xC3, CHR 0xA9] = [([CHR 0xA9], rune_of_byte (CHR 0xC3))] \<and>
         Generate rt mc 3 seed [CHR 0xC3, CHR 0xA9] =
           Inr ([CHR 0xC3, CHR 0xA9] @ encodeRune (rune_of_byte (CHR 0xC3))) \<and>
         encodeRune (rune_of_byte (CHR 0xC3)) = [CHR 0xC3, CHR 0x83] \<and>
         \<not> follows [CHR 0xC3, CHR 0xA9, CHR 0xC3, CHR 0xA9] 1 [CHR 0xA9] (rune_of_byte (CHR 0x83)) \<and>
         CHR 0x83 \<notin> set [CHR 0xC3, CHR 0xA9, CHR 0xC3, CHR 0xA9]"
proof -
  note mc = ee_chain [OF built]
  from draw_one [OF ok] obtain g' where
    d: "rand_Intn rt (if seed < 0 then rand_Seed rt (time_Now rt) else rand_Seed rt seed) 1 = (0, g')"
    by blast
  have "lookup (transitions mc) [CHR 0xA9] = [rune_of_byte (CHR 0xC3)]"
    unfolding mc by (simp add: lookup_def rune_of_byte_utf8)
  moreover from ee_emissions [OF d]
  have "emissions rt mc 3 seed [CHR 0xC3, CHR 0xA9] = [([CHR 0xA9], rune_of_byte (CHR 0xC3))]"
    unfolding mc by (simp add: rune_of_byte_utf8)
  moreover from ee_output [OF d]
  have "Generate rt mc 3 seed [CHR 0xC3, CHR 0xA9] =
      Inr ([CHR 0xC3, CHR 0xA9] @ encodeRune (rune_of_byte (CHR 0xC3)))"
    unfolding mc by (simp add: rune_of_byte_utf8 encodeRune_C3)
  moreover have "encodeRune (rune_of_byte (CHR 0xC3)) = [CHR 0xC3, CHR 0x83]"
    by (simp add: rune_of_byte_utf8 encodeRune_C3)
  moreover note ee_not_follows
  moreover have "CHR 0x83 \<notin> set [CHR 0xC3, CHR 0xA9, CHR 0xC3, CHR 0xA9]" by simp
  ultimately show ?thesis by (intro conjI)
qed

theorem non_ascii_emission_witness:
  "emissions (example_runtime [[CHR 0xC3], [CHR 0xA9]])
     \<lparr>transitions = [[CHR 0xC3] \<mapsto> [0xA9, 0xA9], [CHR 0xA9] \<mapsto> [0xC3]], order = 1\<rparr>
     3 0 [CHR 0xC3, CHR 0xA9] = [([CHR 0xA9], 0xC3)] \<and>
   Generate (example_runtime [[CHR 0xC3], [CHR 0xA9]])
     \<lparr>transitions = [[CHR 0xC3] \<mapsto> [0xA9, 0xA9], [CHR 0xA9] \<mapsto> [0xC3]], order = 1\<rparr>
     3 0 [CHR 0xC3, CHR 0xA9] = Inr [CHR 0xC3, CHR 0xA9, CHR 0xC3, CHR 0x83]"
proof -
  have "runtime_ok (example_runtime [[CHR 0xC3], [CHR 0xA9]])
      (transitions \<lparr>transitions = [[CHR 0xC3] \<mapsto> [0xA9, 0xA9], [CHR 0xA9] \<mapsto> [0xC3]], order = 1\<rparr>)"
    by (rule example_runtime_ok) auto
  from non_ascii_emission [OF ee_table this, of 0] show ?thesis
    by (simp add: rune_of_byte_utf8)
qed

end
